theory Spec2Isabelle
  imports Main "HOL-Library.Word"
begin

section \<open>Python values handled by the validator\<close>

text \<open>
  \<^verbatim>\<open>load_file\<close> returns whatever \<^verbatim>\<open>json.load\<close> or \<^verbatim>\<open>yaml.safe_load\<close> builds: \<^verbatim>\<open>None\<close>,
  booleans, integers, floats, strings, lists and dictionaries. A dictionary is kept as an
  association list in insertion order, with text keys as JSON has them; a float is kept as
  the 64 bits of its IEEE representation. The validator looks only at the class of a
  value, never inside a scalar.
\<close>

datatype pyval =
    PNone
  | PBool bool
  | PInt int
  | PFloat "64 word"
  | PStr string
  | PList "pyval list"
  | PDict "(string \<times> pyval) list"

type_synonym dict = "(string \<times> pyval) list"

text \<open>\<^verbatim>\<open>type(v)\<close>: the class of a value.\<close>

datatype pytype = TNone | TBool | TInt | TFloat | TStr | TList | TDict

fun type_of :: "pyval \<Rightarrow> pytype" where
  "type_of PNone = TNone"
| "type_of (PBool b) = TBool"
| "type_of (PInt n) = TInt"
| "type_of (PFloat x) = TFloat"
| "type_of (PStr s) = TStr"
| "type_of (PList xs) = TList"
| "type_of (PDict d) = TDict"

text \<open>\<^verbatim>\<open>isinstance(v, dict)\<close>.\<close>

fun isinstance_dict :: "pyval \<Rightarrow> bool" where
  "isinstance_dict (PDict d) = True"
| "isinstance_dict v = False"

text \<open>The exceptions the operations below can raise.\<close>

datatype exn = AttributeError | TypeError | KeyError

subsection \<open>Log records\<close>

text \<open>
  Every finding of the validator is a call of \<^verbatim>\<open>logging.error\<close> or \<^verbatim>\<open>logging.warning\<close>.
  A record keeps the level of the call and which of the five messages of
  \<^verbatim>\<open>validate_config\<close> was formatted, with the values interpolated into it.
\<close>

datatype level = ERROR | WARNING

datatype message =
    MissingKeyStrict string
  | MissingKey string
  | ExpectedDict string pytype
  | TypeMismatch string pytype pytype
  | ExtraKey pyval

type_synonym log = "(level \<times> message) list"

subsection \<open>The operations of Python the validator applies to its arguments\<close>

text \<open>\<^verbatim>\<open>key in d\<close> for a dictionary \<open>d\<close>.\<close>

definition has_key :: "dict \<Rightarrow> string \<Rightarrow> bool" where
  "has_key d k = (k \<in> set (map fst d))"

text \<open>\<^verbatim>\<open>key in s\<close> for a string \<open>s\<close>: the substring test.\<close>

fun starts_with :: "string \<Rightarrow> string \<Rightarrow> bool" where
  "starts_with s [] = True"
| "starts_with [] (k # ks) = False"
| "starts_with (c # cs) (k # ks) = (c = k \<and> starts_with cs ks)"

fun str_contains :: "string \<Rightarrow> string \<Rightarrow> bool" where
  "str_contains [] key = (key = [])"
| "str_contains (c # cs) key = (starts_with (c # cs) key \<or> str_contains cs key)"

text \<open>\<^verbatim>\<open>template_data.items()\<close>: only a dictionary has the attribute.\<close>

fun py_items :: "pyval \<Rightarrow> exn + dict" where
  "py_items (PDict d) = Inr d"
| "py_items v = Inl AttributeError"

text \<open>
  \<^verbatim>\<open>key in config_data\<close> for a text key: membership in a dictionary's keys, equality with
  an element of a list, the substring test on a string, and a \<^verbatim>\<open>TypeError\<close> on a value
  that is not iterable.
\<close>

fun py_contains :: "pyval \<Rightarrow> string \<Rightarrow> exn + bool" where
  "py_contains (PDict d) key = Inr (has_key d key)"
| "py_contains (PList xs) key = Inr (PStr key \<in> set xs)"
| "py_contains (PStr s) key = Inr (str_contains s key)"
| "py_contains v key = Inl TypeError"

text \<open>
  \<^verbatim>\<open>config_data[key]\<close> for a text key: a list and a string take integer indices only, the
  other values are not subscriptable.
\<close>

fun py_getitem :: "pyval \<Rightarrow> string \<Rightarrow> exn + pyval" where
  "py_getitem (PDict d) key = (case map_of d key of Some v \<Rightarrow> Inr v | None \<Rightarrow> Inl KeyError)"
| "py_getitem v key = Inl TypeError"

text \<open>\<^verbatim>\<open>for key in config_data\<close>: the keys of a dictionary, the elements of a list, the
  characters of a string.\<close>

fun py_iter :: "pyval \<Rightarrow> exn + pyval list" where
  "py_iter (PDict d) = Inr (map (\<lambda>(k, v). PStr k) d)"
| "py_iter (PList xs) = Inr xs"
| "py_iter (PStr s) = Inr (map (\<lambda>c. PStr [c]) s)"
| "py_iter v = Inl TypeError"

text \<open>
  \<^verbatim>\<open>key in template_data\<close> for any object \<open>key\<close> and a dictionary with text keys: a list or
  a dictionary is unhashable, a scalar that is not text equals no key.
\<close>

fun py_in_dict :: "pyval \<Rightarrow> dict \<Rightarrow> exn + bool" where
  "py_in_dict (PStr k) d = Inr (has_key d k)"
| "py_in_dict (PList xs) d = Inl TypeError"
| "py_in_dict (PDict c) d = Inl TypeError"
| "py_in_dict v d = Inr False"

section \<open>validate_config\<close>

text \<open>
  The function threads the log through its calls and returns the pair of what Python
  returns or raises (\<open>Inr valid\<close> or \<open>Inl\<close> of the exception) and the log on exit. The
  second loop of the source, over the keys of the configuration:
\<close>

fun extra_keys_loop :: "pyval list \<Rightarrow> dict \<Rightarrow> log \<Rightarrow> exn option \<times> log" where
  "extra_keys_loop [] template_data lg = (None, lg)"
| "extra_keys_loop (key # rest) template_data lg =
     (case py_in_dict key template_data of
        Inl e \<Rightarrow> (Some e, lg)
      | Inr present \<Rightarrow>
          extra_keys_loop rest template_data
            (if \<not> present then lg @ [(WARNING, ExtraKey key)] else lg))"

text \<open>
  \<open>template_loop\<close> is the first loop, over \<^verbatim>\<open>template_data.items()\<close>, with the local
  \<^verbatim>\<open>valid\<close> and the log as its state; each \<^verbatim>\<open>continue\<close> of the source is the call on
  the rest of the items.
\<close>

function validate_config :: "pyval \<Rightarrow> pyval \<Rightarrow> bool \<Rightarrow> bool \<Rightarrow> log \<Rightarrow> (exn + bool) \<times> log"
  and template_loop :: "pyval \<Rightarrow> dict \<Rightarrow> bool \<Rightarrow> bool \<Rightarrow> bool \<times> log \<Rightarrow> (exn + bool) \<times> log"
where
  "validate_config config_data template_data strict ignore_missing lg =
     (case py_items template_data of
        Inl e \<Rightarrow> (Inl e, lg)
      | Inr items \<Rightarrow>
          (case template_loop config_data items strict ignore_missing (True, lg) of
             (Inl e, lg1) \<Rightarrow> (Inl e, lg1)
           | (Inr valid, lg1) \<Rightarrow>
               (if \<not> strict \<and> \<not> ignore_missing then
                  (case py_iter config_data of
                     Inl e \<Rightarrow> (Inl e, lg1)
                   | Inr keys \<Rightarrow>
                       (case extra_keys_loop keys items lg1 of
                          (Some e, lg2) \<Rightarrow> (Inl e, lg2)
                        | (None, lg2) \<Rightarrow> (Inr valid, lg2)))
                else (Inr valid, lg1))))"
| "template_loop config_data [] strict ignore_missing (valid, lg) = (Inr valid, lg)"
| "template_loop config_data ((key, template_value) # rest) strict ignore_missing (valid, lg) =
     (case py_contains config_data key of
        Inl e \<Rightarrow> (Inl e, lg)
      | Inr False \<Rightarrow>
          template_loop config_data rest strict ignore_missing
            (if strict then (False, lg @ [(ERROR, MissingKeyStrict key)])
             else if \<not> ignore_missing then (valid, lg @ [(WARNING, MissingKey key)])
             else (valid, lg))
      | Inr True \<Rightarrow>
          (case py_getitem config_data key of
             Inl e \<Rightarrow> (Inl e, lg)
           | Inr config_value \<Rightarrow>
               (if isinstance_dict template_value then
                  (if \<not> isinstance_dict config_value then
                     template_loop config_data rest strict ignore_missing
                       (False, lg @ [(ERROR, ExpectedDict key (type_of config_value))])
                   else
                     (case validate_config config_value template_value strict ignore_missing lg of
                        (Inl e, lg1) \<Rightarrow> (Inl e, lg1)
                      | (Inr ok, lg1) \<Rightarrow>
                          template_loop config_data rest strict ignore_missing
                            (if \<not> ok then False else valid, lg1)))
                else
                  template_loop config_data rest strict ignore_missing
                    (if type_of template_value \<noteq> type_of config_value
                     then (False, lg @ [(ERROR, TypeMismatch key (type_of template_value)
                                                  (type_of config_value))])
                     else (valid, lg)))))"
  by pat_completeness auto
termination
proof (relation "measure (\<lambda>x. case x of
         Inl (c, t, s, i, lg) \<Rightarrow> size t
       | Inr (c, items, s, i, st) \<Rightarrow> size_list (size_prod (\<lambda>k. 0) size) items)", goal_cases)
  case 1
  show ?case by simp
next
  case (2 config_data template_data strict ignore_missing lg items)
  then show ?case by (cases template_data) simp_all
next
  case 3
  show ?case by simp
next
  case 4
  show ?case by simp
next
  case 5
  show ?case by simp
next
  case 6
  show ?case by simp
next
  case 7
  show ?case by simp
qed

declare validate_config.simps [simp del]

section \<open>Findings and verdict of a run on two dictionaries\<close>

text \<open>
  The records a call on two dictionaries appends to the log, and whether it returns
  \<^verbatim>\<open>True\<close>; the same for one iteration of the first loop.
\<close>

definition findings :: "dict \<Rightarrow> dict \<Rightarrow> bool \<Rightarrow> bool \<Rightarrow> log" where
  "findings c t s i = snd (validate_config (PDict c) (PDict t) s i [])"

definition verdict :: "dict \<Rightarrow> dict \<Rightarrow> bool \<Rightarrow> bool \<Rightarrow> bool" where
  "verdict c t s i = (fst (validate_config (PDict c) (PDict t) s i []) = Inr True)"

definition key_findings :: "dict \<Rightarrow> bool \<Rightarrow> bool \<Rightarrow> string \<times> pyval \<Rightarrow> log" where
  "key_findings c s i kv = snd (template_loop (PDict c) [kv] s i (True, []))"

definition key_ok :: "dict \<Rightarrow> bool \<Rightarrow> bool \<Rightarrow> string \<times> pyval \<Rightarrow> bool" where
  "key_ok c s i kv = (fst (template_loop (PDict c) [kv] s i (True, [])) = Inr True)"

definition extra_findings :: "dict \<Rightarrow> dict \<Rightarrow> log" where
  "extra_findings c t =
     map (\<lambda>k. (WARNING, ExtraKey (PStr k))) (filter (\<lambda>k. \<not> has_key t k) (map fst c))"

section \<open>Vocabulary of the specification\<close>

text \<open>
  The specification speaks of findings with a severity and a kind. A finding is a log
  record; its severity is the level of the logging call, its kind is read off the message.
\<close>

definition is_error :: "level \<times> message \<Rightarrow> bool" where
  "is_error r = (fst r = ERROR)"

text \<open>The level at which the source logs each message.\<close>

fun severity :: "message \<Rightarrow> level" where
  "severity (MissingKeyStrict k) = ERROR"
| "severity (MissingKey k) = WARNING"
| "severity (ExpectedDict k a) = ERROR"
| "severity (TypeMismatch k e a) = ERROR"
| "severity (ExtraKey k) = WARNING"

fun missing_key_message :: "message \<Rightarrow> bool" where
  "missing_key_message (MissingKeyStrict k) = True"
| "missing_key_message (MissingKey k) = True"
| "missing_key_message m = False"

fun extra_key_message :: "message \<Rightarrow> bool" where
  "extra_key_message (ExtraKey k) = True"
| "extra_key_message m = False"

definition is_missing_key :: "level \<times> message \<Rightarrow> bool" where
  "is_missing_key r = missing_key_message (snd r)"

definition is_extra_key :: "level \<times> message \<Rightarrow> bool" where
  "is_extra_key r = extra_key_message (snd r)"

definition is_missing_warning :: "level \<times> message \<Rightarrow> bool" where
  "is_missing_warning r = (fst r = WARNING \<and> missing_key_message (snd r))"

text \<open>
  A nesting level of the walk is named by the path of keys that leads to it: the pair of
  dictionaries that the recursive call reached along the path receives, when the
  configuration and the template both hold a dictionary under each key of the path.
\<close>

fun descend :: "string list \<Rightarrow> dict \<Rightarrow> dict \<Rightarrow> (dict \<times> dict) option" where
  "descend [] c t = Some (c, t)"
| "descend (k # p) c t =
     (case map_of c k of
        Some (PDict cd) \<Rightarrow>
          (case map_of t k of Some (PDict td) \<Rightarrow> descend p cd td | _ \<Rightarrow> None)
      | _ \<Rightarrow> None)"

text \<open>
  A Python dictionary holds each key once. The association lists that stand for
  dictionaries, at any depth of a value, are those with distinct keys.
\<close>

fun unique_keys :: "pyval \<Rightarrow> bool" where
  "unique_keys (PDict d) = (distinct (map fst d) \<and> list_all (\<lambda>kv. unique_keys (snd kv)) d)"
| "unique_keys (PList xs) = list_all unique_keys xs"
| "unique_keys v = True"

text \<open>
  Two edits of a configuration, used to say what the walk does not look at: the value
  stored under the key \<open>k\<close> of the dictionary that the path \<open>p\<close> leads to is replaced, or
  the key is removed there.
\<close>

definition map_value :: "string \<Rightarrow> (pyval \<Rightarrow> pyval) \<Rightarrow> dict \<Rightarrow> dict" where
  "map_value a f c = map (\<lambda>kv. if fst kv = a then (a, f (snd kv)) else kv) c"

fun in_dict :: "(dict \<Rightarrow> dict) \<Rightarrow> pyval \<Rightarrow> pyval" where
  "in_dict g (PDict d) = PDict (g d)"
| "in_dict g v = v"

primrec replace_at :: "string list \<Rightarrow> string \<Rightarrow> pyval \<Rightarrow> dict \<Rightarrow> dict" where
  "replace_at [] k v c = map_value k (\<lambda>old. v) c"
| "replace_at (a # p) k v c = map_value a (in_dict (replace_at p k v)) c"

primrec remove_at :: "string list \<Rightarrow> string \<Rightarrow> dict \<Rightarrow> dict" where
  "remove_at [] k c = filter (\<lambda>kv. fst kv \<noteq> k) c"
| "remove_at (a # p) k c = map_value a (in_dict (remove_at p k)) c"

section \<open>A call on two dictionaries returns, and appends the same records to any log\<close>

lemma extra_keys_loop_dict:
  "extra_keys_loop (map (\<lambda>(k, v). PStr k) c) t lg = (None, lg @ extra_findings c t)"
  by (induction c arbitrary: lg) (auto simp: extra_findings_def)

lemma has_key_map_of: "has_key d k \<longleftrightarrow> map_of d k \<noteq> None"
  by (simp add: has_key_def map_of_eq_None_iff)

lemma run_uniform:
  fixes lg :: log and st :: "bool \<times> log"
  shows "\<forall>c t. c' = PDict c \<and> t' = PDict t \<longrightarrow>
      (\<exists>v f. \<forall>lg'. validate_config c' t' s i lg' = (Inr v, lg' @ f))"
  and "\<forall>c. c' = PDict c \<longrightarrow>
      (\<exists>ok f. \<forall>v lg'. template_loop c' items s i (v, lg') = (Inr (v \<and> ok), lg' @ f))"
proof (induction c' t' s i lg and c' items s i st rule: validate_config_template_loop.induct)
  case (1 config_data template_data strict ignore_missing lg)
  show ?case
  proof (intro allI impI, elim conjE)
    fix c t assume ct: "config_data = PDict c" "template_data = PDict t"
    from 1(1)[of t] ct obtain ok f where
      L: "\<And>v lg'. template_loop (PDict c) t strict ignore_missing (v, lg') = (Inr (v \<and> ok), lg' @ f)"
      by auto
    show "\<exists>v f. \<forall>lg'. validate_config config_data template_data strict ignore_missing lg' = (Inr v, lg' @ f)"
      by (rule exI[of _ ok],
          rule exI[of _ "f @ (if \<not> strict \<and> \<not> ignore_missing then extra_findings c t else [])"])
         (use L in \<open>cases strict; cases ignore_missing; simp add: validate_config.simps ct extra_keys_loop_dict\<close>)
  qed
next
  case (2 config_data strict ignore_missing valid lg)
  show ?case by (auto intro!: exI[of _ True] exI[of _ "[]"])
next
  case (3 config_data key template_value rest strict ignore_missing valid lg)
  show ?case
  proof (intro allI impI)
    fix c assume c: "config_data = PDict c"
    show "\<exists>ok f. \<forall>v lg'. template_loop config_data ((key, template_value) # rest) strict ignore_missing (v, lg') = (Inr (v \<and> ok), lg' @ f)"
    proof (cases "map_of c key")
      case None
      then have hk: "\<not> has_key c key" by (simp add: has_key_map_of)
      from 3(5)[of False] c hk obtain ok f where
        L: "\<And>v lg'. template_loop (PDict c) rest strict ignore_missing (v, lg') = (Inr (v \<and> ok), lg' @ f)"
        by auto
      show ?thesis
        by (rule exI[of _ "\<not> strict \<and> ok"],
            rule exI[of _ "(if strict then [(ERROR, MissingKeyStrict key)]
                 else if \<not> ignore_missing then [(WARNING, MissingKey key)] else []) @ f"])
           (use L in \<open>cases strict; cases ignore_missing; simp add: c hk\<close>)
    next
      case (Some cv)
      then have hk: "has_key c key" by (simp add: has_key_map_of)
      show ?thesis
      proof (cases "isinstance_dict template_value")
        case False
        from 3(4)[of True cv] c hk Some False obtain ok f where
          L: "\<And>v lg'. template_loop (PDict c) rest strict ignore_missing (v, lg') = (Inr (v \<and> ok), lg' @ f)"
          by auto
        show ?thesis
          by (rule exI[of _ "type_of template_value = type_of cv \<and> ok"],
              rule exI[of _ "(if type_of template_value \<noteq> type_of cv
                   then [(ERROR, TypeMismatch key (type_of template_value) (type_of cv))] else []) @ f"])
             (simp add: c hk Some False L)
      next
        case True
        note tdict = True
        show ?thesis
        proof (cases "isinstance_dict cv")
          case False
          from 3(1)[of True cv] c hk Some tdict False obtain ok f where
            L: "\<And>v lg'. template_loop (PDict c) rest strict ignore_missing (v, lg') = (Inr (v \<and> ok), lg' @ f)"
            by auto
          show ?thesis
            by (rule exI[of _ False], rule exI[of _ "[(ERROR, ExpectedDict key (type_of cv))] @ f"])
               (simp add: c hk Some tdict False L)
        next
          case True
          from tdict obtain td where td: "template_value = PDict td" by (cases template_value) auto
          from True obtain cd where cd: "cv = PDict cd" by (cases cv) auto
          from 3(2)[of True cv] c hk Some tdict True td cd obtain v1 f1 where
            N: "\<And>lg'. validate_config cv template_value strict ignore_missing lg' = (Inr v1, lg' @ f1)"
            by auto
          from 3(3)[of True cv "Inr v1" "lg @ f1" v1] c hk Some tdict True N obtain ok f where
            L: "\<And>v lg'. template_loop (PDict c) rest strict ignore_missing (v, lg') = (Inr (v \<and> ok), lg' @ f)"
            by auto
          show ?thesis
            by (rule exI[of _ "v1 \<and> ok"], rule exI[of _ "f1 @ f"])
               (auto simp add: c hk Some tdict True N L)
        qed
      qed
    qed
  qed
qed

lemma validate_dict:
  "validate_config (PDict c) (PDict t) s i lg = (Inr (verdict c t s i), lg @ findings c t s i)"
proof -
  from run_uniform(1)[of "PDict c" "PDict t" s i] obtain v f where
    U: "\<And>lg'. validate_config (PDict c) (PDict t) s i lg' = (Inr v, lg' @ f)"
    by auto
  have "verdict c t s i = v" "findings c t s i = f"
    using U[of "[]"] by (simp_all add: verdict_def findings_def)
  with U[of lg] show ?thesis by simp
qed

lemma key_step:
  "template_loop (PDict c) [kv] s i (v, lg) = (Inr (v \<and> key_ok c s i kv), lg @ key_findings c s i kv)"
proof -
  from run_uniform(2)[of "PDict c" "[kv]" s i] obtain ok f where
    U: "\<And>v lg'. template_loop (PDict c) [kv] s i (v, lg') = (Inr (v \<and> ok), lg' @ f)"
    by auto
  have "key_ok c s i kv = ok" "key_findings c s i kv = f"
    using U[of True "[]"] by (simp_all add: key_ok_def key_findings_def)
  with U[of v lg] show ?thesis by simp
qed

lemma key_missing:
  assumes "map_of c k = None"
  shows "key_findings c s i (k, tv) =
           (if s then [(ERROR, MissingKeyStrict k)]
            else if \<not> i then [(WARNING, MissingKey k)] else [])"
    and "key_ok c s i (k, tv) = (\<not> s)"
  using assms by (simp_all add: key_findings_def key_ok_def has_key_map_of)

lemma key_scalar:
  assumes "map_of c k = Some cv" "\<not> isinstance_dict tv"
  shows "key_findings c s i (k, tv) =
           (if type_of tv \<noteq> type_of cv
            then [(ERROR, TypeMismatch k (type_of tv) (type_of cv))] else [])"
    and "key_ok c s i (k, tv) = (type_of tv = type_of cv)"
  using assms by (simp_all add: key_findings_def key_ok_def has_key_map_of)

lemma key_expected_dict:
  assumes "map_of c k = Some cv" "isinstance_dict tv" "\<not> isinstance_dict cv"
  shows "key_findings c s i (k, tv) = [(ERROR, ExpectedDict k (type_of cv))]"
    and "key_ok c s i (k, tv) = False"
  using assms by (simp_all add: key_findings_def key_ok_def has_key_map_of)

lemma key_nested:
  assumes "map_of c k = Some (PDict cd)"
  shows "key_findings c s i (k, PDict td) = findings cd td s i"
    and "key_ok c s i (k, PDict td) = verdict cd td s i"
  using assms by (simp_all add: key_findings_def key_ok_def has_key_map_of validate_dict)


lemma template_loop_cons:
  "template_loop (PDict c) (kv # rest) s i (v, lg) =
     template_loop (PDict c) rest s i (v \<and> key_ok c s i kv, lg @ key_findings c s i kv)"
proof -
  obtain k tv where kv: "kv = (k, tv)" by (cases kv)
  show ?thesis
  proof (cases "map_of c k")
    case None
    then have hk: "\<not> has_key c k" by (simp add: has_key_map_of)
    show ?thesis
      unfolding kv by (cases s; cases i) (simp_all add: key_missing[OF None] hk)
  next
    case (Some cv)
    then have hk: "has_key c k" by (simp add: has_key_map_of)
    show ?thesis
    proof (cases "isinstance_dict tv")
      case False
      show ?thesis
        unfolding kv by (cases "type_of tv = type_of cv") (simp_all add: key_scalar[OF Some False] hk Some False)
    next
      case True
      note tdict = True
      show ?thesis
      proof (cases "isinstance_dict cv")
        case False
        show ?thesis
          unfolding kv by (simp add: key_expected_dict[OF Some tdict False] hk Some tdict False)
      next
        case True
        from tdict obtain td where td: "tv = PDict td" by (cases tv) auto
        from True obtain cd where cd: "cv = PDict cd" by (cases cv) auto
        show ?thesis
          unfolding kv td
          by (cases "verdict cd td s i")
             (simp_all add: key_nested[OF Some[unfolded cd]] hk Some cd validate_dict)
      qed
    qed
  qed
qed

lemma template_loop_dict:
  "template_loop (PDict c) items s i (v, lg) =
     (Inr (v \<and> list_all (key_ok c s i) items), lg @ concat (map (key_findings c s i) items))"
proof (induction items arbitrary: v lg)
  case Nil
  show ?case by simp
next
  case (Cons kv items)
  show ?case by (simp only: template_loop_cons Cons) simp
qed

lemma findings_eq:
  "findings c t s i =
     concat (map (key_findings c s i) t) @ (if \<not> s \<and> \<not> i then extra_findings c t else [])"
  unfolding findings_def
  by (cases s; cases i) (simp_all add: validate_config.simps template_loop_dict extra_keys_loop_dict)

lemma verdict_eq: "verdict c t s i = list_all (key_ok c s i) t"
  unfolding verdict_def
  by (cases s; cases i) (simp_all add: validate_config.simps template_loop_dict extra_keys_loop_dict)

section \<open>Induction over the nesting of the template\<close>

lemma dict_induct [case_names dict]:
  assumes "\<And>t. (\<And>k td. (k, PDict td) \<in> set t \<Longrightarrow> P td) \<Longrightarrow> P t"
  shows "P t"
proof -
  have "\<forall>d. v = PDict d \<longrightarrow> P d" for v
  proof (induction v)
    case (PDict x)
    have "P x"
    proof (rule assms)
      fix k td assume "(k, PDict td) \<in> set x"
      from PDict[OF this, of "PDict td"] show "P td" by simp
    qed
    then show ?case by simp
  qed simp_all
  then show ?thesis by simp
qed

lemma key_cases:
  fixes c :: dict and k :: string and tv :: pyval
  obtains (missing) "map_of c k = None"
  | (scalar) cv where "map_of c k = Some cv" "\<not> isinstance_dict tv"
  | (expected_dict) cv where "map_of c k = Some cv" "isinstance_dict tv" "\<not> isinstance_dict cv"
  | (nested) cd td where "map_of c k = Some (PDict cd)" "tv = PDict td"
proof (cases "map_of c k")
  case None then show ?thesis by (rule missing)
next
  case (Some cv)
  show ?thesis
  proof (cases "isinstance_dict tv")
    case False with Some show ?thesis by (rule scalar)
  next
    case True
    show ?thesis
    proof (cases cv)
      case (PDict cd)
      from True obtain td where "tv = PDict td" by (cases tv) auto
      with Some PDict show ?thesis by (auto intro: nested)
    qed (use Some True in \<open>auto intro: expected_dict\<close>)
  qed
qed

section \<open>Severity and verdict\<close>

lemma severity_findings:
  "list_all (\<lambda>r. fst r = severity (snd r)) (findings c t s i)"
proof (induction t arbitrary: c rule: dict_induct)
  case (dict t)
  have "list_all (\<lambda>r. fst r = severity (snd r)) (key_findings c s i (k, tv))"
    if "(k, tv) \<in> set t" for k tv
  proof (cases rule: key_cases[where c=c and k=k and tv=tv])
    case missing then show ?thesis by (simp add: key_missing)
  next
    case (scalar cv) then show ?thesis by (simp add: key_scalar)
  next
    case (expected_dict cv) then show ?thesis by (simp add: key_expected_dict)
  next
    case (nested cd td)
    with that have "(k, PDict td) \<in> set t" by simp
    from dict[OF this] nested show ?thesis by (simp add: key_nested)
  qed
  then show ?case
    by (auto simp add: findings_eq list_all_iff extra_findings_def)
qed

lemma verdict_errors: "verdict c t s i \<longleftrightarrow> filter is_error (findings c t s i) = []"
proof (induction t arbitrary: c rule: dict_induct)
  case (dict t)
  have K: "key_ok c s i (k, tv) \<longleftrightarrow> filter is_error (key_findings c s i (k, tv)) = []"
    if "(k, tv) \<in> set t" for k tv
  proof (cases rule: key_cases[where c=c and k=k and tv=tv])
    case missing then show ?thesis by (simp add: key_missing is_error_def)
  next
    case (scalar cv) then show ?thesis by (simp add: key_scalar is_error_def)
  next
    case (expected_dict cv) then show ?thesis by (simp add: key_expected_dict is_error_def)
  next
    case (nested cd td)
    with that have "(k, PDict td) \<in> set t" by simp
    from dict[OF this] nested show ?thesis by (simp add: key_nested)
  qed
  have E: "filter is_error (extra_findings c t) = []"
    by (simp add: extra_findings_def filter_empty_conv is_error_def)
  have "list_all (key_ok c s i) t \<longleftrightarrow> (\<forall>kv \<in> set t. filter is_error (key_findings c s i kv) = [])"
    using K by (auto simp: list_all_iff)
  then show ?case
    by (simp add: findings_eq verdict_eq E filter_concat) 
qed

section \<open>The two flags\<close>

lemma strict_ignores_ignore_missing:
  "findings c t True False = findings c t True True \<and> verdict c t True False = verdict c t True True"
proof (induction t arbitrary: c rule: dict_induct)
  case (dict t)
  have K: "key_findings c True False (k, tv) = key_findings c True True (k, tv)
           \<and> key_ok c True False (k, tv) = key_ok c True True (k, tv)"
    if "(k, tv) \<in> set t" for k tv
  proof (cases rule: key_cases[where c=c and k=k and tv=tv])
    case missing then show ?thesis by (simp add: key_missing)
  next
    case (scalar cv) then show ?thesis by (simp add: key_scalar)
  next
    case (expected_dict cv) then show ?thesis by (simp add: key_expected_dict)
  next
    case (nested cd td)
    with that have "(k, PDict td) \<in> set t" by simp
    from dict[OF this] nested show ?thesis by (simp add: key_nested)
  qed
  have M: "map (key_findings c True False) t = map (key_findings c True True) t"
    using K by (auto intro: map_cong)
  have "concat (map (key_findings c True False) t) = concat (map (key_findings c True True) t)"
    by (simp only: M)
  moreover have "list_all (key_ok c True False) t = list_all (key_ok c True True) t"
    using K by (auto simp: list_all_iff)
  ultimately show ?case by (simp add: findings_eq verdict_eq)
qed

lemma no_missing_when_ignored: "filter is_missing_key (findings c t False True) = []"
proof (induction t arbitrary: c rule: dict_induct)
  case (dict t)
  have K: "filter is_missing_key (key_findings c False True (k, tv)) = []"
    if "(k, tv) \<in> set t" for k tv
  proof (cases rule: key_cases[where c=c and k=k and tv=tv])
    case missing then show ?thesis by (simp add: key_missing)
  next
    case (scalar cv) then show ?thesis by (simp add: key_scalar is_missing_key_def)
  next
    case (expected_dict cv) then show ?thesis by (simp add: key_expected_dict is_missing_key_def)
  next
    case (nested cd td)
    with that have "(k, PDict td) \<in> set t" by simp
    from dict[OF this] nested show ?thesis by (simp add: key_nested)
  qed
  then have "\<forall>kv \<in> set t. filter is_missing_key (key_findings c False True kv) = []" by auto
  then show ?case by (simp add: findings_eq filter_concat)
qed

lemma no_missing_warning_when_strict: "filter is_missing_warning (findings c t True i) = []"
proof (induction t arbitrary: c rule: dict_induct)
  case (dict t)
  have K: "filter is_missing_warning (key_findings c True i (k, tv)) = []"
    if "(k, tv) \<in> set t" for k tv
  proof (cases rule: key_cases[where c=c and k=k and tv=tv])
    case missing then show ?thesis by (simp add: key_missing is_missing_warning_def)
  next
    case (scalar cv) then show ?thesis by (simp add: key_scalar is_missing_warning_def)
  next
    case (expected_dict cv) then show ?thesis by (simp add: key_expected_dict is_missing_warning_def)
  next
    case (nested cd td)
    with that have "(k, PDict td) \<in> set t" by simp
    from dict[OF this] nested show ?thesis by (simp add: key_nested)
  qed
  then have "\<forall>kv \<in> set t. filter is_missing_warning (key_findings c True i kv) = []" by auto
  then show ?case by (simp add: findings_eq filter_concat)
qed

lemma length_filter_concat_map:
  "length (filter P (concat (map f xs))) = sum_list (map (\<lambda>x. length (filter P (f x))) xs)"
  by (induction xs) simp_all

lemma strict_errors_mono:
  "length (filter is_error (findings c t False i)) \<le> length (filter is_error (findings c t True i))"
proof (induction t arbitrary: c rule: dict_induct)
  case (dict t)
  have K: "length (filter is_error (key_findings c False i (k, tv)))
           \<le> length (filter is_error (key_findings c True i (k, tv)))"
    if "(k, tv) \<in> set t" for k tv
  proof (cases rule: key_cases[where c=c and k=k and tv=tv])
    case missing then show ?thesis by (simp add: key_missing is_error_def)
  next
    case (scalar cv) then show ?thesis by (simp add: key_scalar)
  next
    case (expected_dict cv) then show ?thesis by (simp add: key_expected_dict)
  next
    case (nested cd td)
    with that have "(k, PDict td) \<in> set t" by simp
    from dict[OF this] nested show ?thesis by (simp add: key_nested)
  qed
  have E: "filter is_error (extra_findings c t) = []"
    by (simp add: extra_findings_def filter_empty_conv is_error_def)
  have "sum_list (map (\<lambda>kv. length (filter is_error (key_findings c False i kv))) t)
        \<le> sum_list (map (\<lambda>kv. length (filter is_error (key_findings c True i kv))) t)"
    using K by (intro sum_list_mono) auto
  then show ?case by (cases i) (simp_all add: findings_eq length_filter_concat_map E)
qed

section \<open>Nesting levels of the walk\<close>

lemma nested_in_parent:
  assumes "map_of t k = Some (PDict td)" "map_of c k = Some (PDict cd)"
  shows "set (findings cd td s i) \<subseteq> set (findings c t s i)"
    and "verdict c t s i \<Longrightarrow> verdict cd td s i"
proof -
  from assms(1) have mem: "(k, PDict td) \<in> set t" by (rule map_of_SomeD)
  have kf: "key_findings c s i (k, PDict td) = findings cd td s i"
    and ko: "key_ok c s i (k, PDict td) = verdict cd td s i"
    using assms(2) by (simp_all add: key_nested)
  from mem kf show "set (findings cd td s i) \<subseteq> set (findings c t s i)"
    by (cases s; cases i) (force simp add: findings_eq)+
  from mem ko show "verdict c t s i \<Longrightarrow> verdict cd td s i"
    by (auto simp add: verdict_eq list_all_iff)
qed

lemma descend_findings:
  "descend p c t = Some (c', t') \<Longrightarrow>
     set (findings c' t' s i) \<subseteq> set (findings c t s i) \<and> (verdict c t s i \<longrightarrow> verdict c' t' s i)"
proof (induction p arbitrary: c t)
  case Nil
  then show ?case by simp
next
  case (Cons k p)
  from Cons.prems obtain cd td where
    c: "map_of c k = Some (PDict cd)" and t: "map_of t k = Some (PDict td)"
    and d: "descend p cd td = Some (c', t')"
    by (auto split: option.splits pyval.splits)
  from Cons.IH[OF d] nested_in_parent[OF t c, of s i] show ?case by blast
qed

lemma missing_at_level:
  assumes "has_key t k" "\<not> has_key c k"
  shows "(ERROR, MissingKeyStrict k) \<in> set (findings c t True i)" and "\<not> verdict c t True i"
proof -
  from assms(1) obtain tv where mem: "(k, tv) \<in> set t" by (auto simp: has_key_def)
  from assms(2) have none: "map_of c k = None" by (simp add: has_key_map_of)
  have kf: "key_findings c True i (k, tv) = [(ERROR, MissingKeyStrict k)]"
    and ko: "\<not> key_ok c True i (k, tv)"
    using none by (simp_all add: key_missing)
  from mem kf show "(ERROR, MissingKeyStrict k) \<in> set (findings c t True i)"
    by (force simp add: findings_eq)
  from mem ko show "\<not> verdict c t True i"
    by (auto simp add: verdict_eq list_all_iff)
qed

lemma extra_at_level:
  assumes "has_key c k" "\<not> has_key t k"
  shows "(WARNING, ExtraKey (PStr k)) \<in> set (findings c t False False)"
  using assms by (auto simp add: findings_eq extra_findings_def has_key_def)

lemma no_extra_when_flag:
  "s \<or> i \<Longrightarrow> filter is_extra_key (findings c t s i) = []"
proof (induction t arbitrary: c rule: dict_induct)
  case (dict t)
  have K: "filter is_extra_key (key_findings c s i (k, tv)) = []"
    if "(k, tv) \<in> set t" for k tv
  proof (cases rule: key_cases[where c=c and k=k and tv=tv])
    case missing then show ?thesis by (simp add: key_missing is_extra_key_def)
  next
    case (scalar cv) then show ?thesis by (simp add: key_scalar is_extra_key_def)
  next
    case (expected_dict cv) then show ?thesis by (simp add: key_expected_dict is_extra_key_def)
  next
    case (nested cd td)
    with that have "(k, PDict td) \<in> set t" by simp
    from dict(1)[OF this dict(2)] nested show ?thesis by (simp add: key_nested)
  qed
  then have "\<forall>kv \<in> set t. filter is_extra_key (key_findings c s i kv) = []" by auto
  with dict(2) show ?case by (auto simp add: findings_eq filter_concat)
qed

section \<open>A document against itself\<close>

lemma self_validation:
  "unique_keys (PDict t) \<Longrightarrow> findings t t s i = [] \<and> verdict t t s i"
proof (induction t rule: dict_induct)
  case (dict t)
  from dict.prems have dist: "distinct (map fst t)" by simp
  have K: "key_findings t s i (k, tv) = [] \<and> key_ok t s i (k, tv)" if mem: "(k, tv) \<in> set t" for k tv
  proof -
    from dist mem have m: "map_of t k = Some tv" by simp
    show ?thesis
    proof (cases tv)
      case (PDict td)
      from dict.prems have "\<forall>kv \<in> set t. unique_keys (snd kv)" by (simp add: list_all_iff)
      from bspec[OF this mem] PDict have "unique_keys (PDict td)"
        by (simp del: unique_keys.simps)
      from dict.IH[OF mem[unfolded PDict] this] m PDict show ?thesis by (simp add: key_nested)
    qed (use m in \<open>simp_all add: key_scalar\<close>)
  qed
  have E: "extra_findings t t = []"
    by (simp add: extra_findings_def has_key_def)
  from K have "\<forall>kv \<in> set t. key_findings t s i kv = []" "list_all (key_ok t s i) t"
    by (auto simp: list_all_iff)
  then show ?case by (simp add: findings_eq verdict_eq E)
qed

section \<open>Edits of the configuration under an extra key\<close>

lemma map_of_map_value:
  "map_of (map_value a f c) k = (if k = a then map_option f (map_of c a) else map_of c k)"
  by (induction c) (auto simp: map_value_def)

lemma keys_map_value: "map fst (map_value a f c) = map fst c"
  by (simp add: map_value_def comp_def)

lemma map_of_remove_key: "k' \<noteq> k \<Longrightarrow> map_of (filter (\<lambda>kv. fst kv \<noteq> k) c) k' = map_of c k'"
  by (induction c) auto

lemma key_cong:
  assumes "map_of c k = map_of c2 k"
  shows "key_findings c s i (k, tv) = key_findings c2 s i (k, tv)"
    and "key_ok c s i (k, tv) = key_ok c2 s i (k, tv)"
proof -
  have "key_findings c s i (k, tv) = key_findings c2 s i (k, tv)
        \<and> key_ok c s i (k, tv) = key_ok c2 s i (k, tv)"
  proof (cases rule: key_cases[where c=c and k=k and tv=tv])
    case missing
    with assms have "map_of c2 k = None" by simp
    with missing show ?thesis by (simp add: key_missing)
  next
    case (scalar cv)
    with assms have "map_of c2 k = Some cv" by simp
    with scalar show ?thesis by (simp add: key_scalar)
  next
    case (expected_dict cv)
    with assms have "map_of c2 k = Some cv" by simp
    with expected_dict show ?thesis by (simp add: key_expected_dict)
  next
    case (nested cd td)
    with assms have "map_of c2 k = Some (PDict cd)" by simp
    with nested show ?thesis by (simp add: key_nested)
  qed
  then show "key_findings c s i (k, tv) = key_findings c2 s i (k, tv)"
    and "key_ok c s i (k, tv) = key_ok c2 s i (k, tv)" by simp_all
qed

lemma extra_findings_keys:
  "map fst c2 = map fst c \<Longrightarrow> extra_findings c2 t = extra_findings c t"
  by (simp add: extra_findings_def)

text \<open>Replacing the value under an extra key at this level.\<close>

lemma replace_here:
  assumes "\<not> has_key t k"
  shows "findings (map_value k f c) t s i = findings c t s i"
    and "verdict (map_value k f c) t s i = verdict c t s i"
proof -
  have K: "key_findings (map_value k f c) s i kv = key_findings c s i kv
           \<and> key_ok (map_value k f c) s i kv = key_ok c s i kv" if "kv \<in> set t" for kv
  proof -
    obtain k' tv where kv: "kv = (k', tv)" by (cases kv)
    with that assms have "k' \<noteq> k" by (force simp: has_key_def)
    then have "map_of (map_value k f c) k' = map_of c k'" by (simp add: map_of_map_value)
    from key_cong[OF this] show ?thesis by (simp add: kv)
  qed
  then have M: "map (key_findings (map_value k f c) s i) t = map (key_findings c s i) t"
    by (auto intro: map_cong)
  have E: "extra_findings (map_value k f c) t = extra_findings c t"
    by (rule extra_findings_keys) (rule keys_map_value)
  show "findings (map_value k f c) t s i = findings c t s i"
    by (simp only: findings_eq M E)
  from K show "verdict (map_value k f c) t s i = verdict c t s i"
    by (auto simp: verdict_eq list_all_iff)
qed


lemma unique_keys_nested:
  assumes "unique_keys (PDict d)" "map_of d a = Some (PDict e)"
  shows "unique_keys (PDict e)"
proof -
  from assms(2) have mem: "(a, PDict e) \<in> set d" by (rule map_of_SomeD)
  from assms(1) have "\<forall>kv \<in> set d. unique_keys (snd kv)" by (simp add: list_all_iff)
  from bspec[OF this mem] show ?thesis by (simp del: unique_keys.simps)
qed

text \<open>
  A change of the configuration confined to the dictionary under the key \<open>a\<close> changes the
  findings of the level above by exactly what it changes in the findings under \<open>a\<close>.
\<close>

lemma nested_change:
  assumes dt: "distinct (map fst t)"
    and mt: "map_of t a = Some (PDict td)"
    and mc: "map_of c a = Some (PDict cd)"
    and mc2: "map_of c2 a = Some (PDict cd2)"
    and other: "\<And>k'. k' \<noteq> a \<Longrightarrow> map_of c2 k' = map_of c k'"
    and keys: "map fst c2 = map fst c"
    and f2: "findings cd2 td s i = xs @ ys"
    and f1: "findings cd td s i = xs @ E @ ys"
    and v: "verdict cd2 td s i = verdict cd td s i"
  shows "verdict c2 t s i = verdict c t s i
         \<and> (\<exists>XS YS. findings c2 t s i = XS @ YS \<and> findings c t s i = XS @ E @ YS)"
proof -
  from mt have "(a, PDict td) \<in> set t" by (rule map_of_SomeD)
  then obtain t1 t2 where t: "t = t1 @ (a, PDict td) # t2" by (auto dest: split_list)
  from dt t have n1: "a \<notin> fst ` set t1" and n2: "a \<notin> fst ` set t2" by auto
  have same: "key_findings c2 s i kv = key_findings c s i kv \<and> key_ok c2 s i kv = key_ok c s i kv"
    if "fst kv \<noteq> a" for kv
  proof -
    obtain k' tv where kv: "kv = (k', tv)" by (cases kv)
    with that have "map_of c2 k' = map_of c k'" by (simp add: other)
    from key_cong[OF this] show ?thesis by (simp add: kv)
  qed
  have in1: "key_findings c2 s i kv = key_findings c s i kv" "key_ok c2 s i kv = key_ok c s i kv"
    if "kv \<in> set t1" for kv
  proof -
    from that n1 have "fst kv \<noteq> a" by force
    from same[OF this] show "key_findings c2 s i kv = key_findings c s i kv"
      "key_ok c2 s i kv = key_ok c s i kv" by simp_all
  qed
  have in2: "key_findings c2 s i kv = key_findings c s i kv" "key_ok c2 s i kv = key_ok c s i kv"
    if "kv \<in> set t2" for kv
  proof -
    from that n2 have "fst kv \<noteq> a" by force
    from same[OF this] show "key_findings c2 s i kv = key_findings c s i kv"
      "key_ok c2 s i kv = key_ok c s i kv" by simp_all
  qed
  have M1: "map (key_findings c2 s i) t1 = map (key_findings c s i) t1"
    by (rule map_cong) (simp_all add: in1)
  have M2: "map (key_findings c2 s i) t2 = map (key_findings c s i) t2"
    by (rule map_cong) (simp_all add: in2)
  have L1: "list_all (key_ok c2 s i) t1 = list_all (key_ok c s i) t1"
    by (simp add: list_all_iff in1)
  have L2: "list_all (key_ok c2 s i) t2 = list_all (key_ok c s i) t2"
    by (simp add: list_all_iff in2)
  have E2: "extra_findings c2 t = extra_findings c t"
    using keys by (rule extra_findings_keys)
  have kf2: "key_findings c2 s i (a, PDict td) = xs @ ys"
    and kf1: "key_findings c s i (a, PDict td) = xs @ E @ ys"
    and ko: "key_ok c2 s i (a, PDict td) = key_ok c s i (a, PDict td)"
    by (simp_all add: key_nested[OF mc] key_nested[OF mc2] f1 f2 v)
  define XS where "XS = concat (map (key_findings c s i) t1) @ xs"
  define YS where "YS = ys @ concat (map (key_findings c s i) t2)
                        @ (if \<not> s \<and> \<not> i then extra_findings c t else [])"
  have "findings c2 t s i = XS @ YS"
    unfolding findings_eq t XS_def YS_def by (simp add: M1 M2 kf2 E2[unfolded t])
  moreover have "findings c t s i = XS @ E @ YS"
    unfolding findings_eq t XS_def YS_def by (simp add: kf1)
  moreover have "verdict c2 t s i = verdict c t s i"
    unfolding verdict_eq t by (simp add: L1 L2 ko)
  ultimately show ?thesis by blast
qed

text \<open>Removing an extra key at this level removes its one warning and nothing else.\<close>

lemma remove_here:
  assumes dc: "distinct (map fst c)" and hc: "has_key c k" and nt: "\<not> has_key t k"
  shows "verdict (filter (\<lambda>kv. fst kv \<noteq> k) c) t s i = verdict c t s i
         \<and> (\<exists>xs ys. findings (filter (\<lambda>kv. fst kv \<noteq> k) c) t s i = xs @ ys
               \<and> findings c t s i
                  = xs @ (if \<not> s \<and> \<not> i then [(WARNING, ExtraKey (PStr k))] else []) @ ys)"
proof -
  let ?c2 = "filter (\<lambda>kv. fst kv \<noteq> k) c"
  have K: "key_findings ?c2 s i kv = key_findings c s i kv \<and> key_ok ?c2 s i kv = key_ok c s i kv"
    if "kv \<in> set t" for kv
  proof -
    obtain k' tv where kv: "kv = (k', tv)" by (cases kv)
    with that nt have "k' \<noteq> k" by (force simp: has_key_def)
    then have "map_of ?c2 k' = map_of c k'" by (rule map_of_remove_key)
    from key_cong[OF this] show ?thesis by (simp add: kv)
  qed
  then have M: "map (key_findings ?c2 s i) t = map (key_findings c s i) t"
    by (auto intro: map_cong)
  from K have V: "verdict ?c2 t s i = verdict c t s i"
    by (auto simp: verdict_eq list_all_iff)
  from hc obtain ks1 ks2 where ks: "map fst c = ks1 @ k # ks2"
    by (auto simp: has_key_def dest: split_list)
  from dc ks have n1: "k \<notin> set ks1" and n2: "k \<notin> set ks2" by auto
  have "map fst ?c2 = filter (\<lambda>x. x \<noteq> k) (map fst c)"
    by (simp add: filter_map comp_def)
  also have "\<dots> = ks1 @ ks2"
  proof -
    have "filter (\<lambda>x. x \<noteq> k) ks1 = ks1" using n1 by (intro filter_True) auto
    moreover have "filter (\<lambda>x. x \<noteq> k) ks2 = ks2" using n2 by (intro filter_True) auto
    ultimately show ?thesis by (simp add: ks)
  qed
  finally have ks': "map fst ?c2 = ks1 @ ks2" .
  define W where "W ks = map (\<lambda>k. (WARNING, ExtraKey (PStr k))) (filter (\<lambda>k. \<not> has_key t k) ks)" for ks
  have E1: "extra_findings c t = W ks1 @ (WARNING, ExtraKey (PStr k)) # W ks2"
    using nt by (simp add: extra_findings_def ks W_def)
  have E2: "extra_findings ?c2 t = W ks1 @ W ks2"
    by (simp add: extra_findings_def ks' W_def)
  have F2: "findings ?c2 t s i = concat (map (key_findings c s i) t)
                @ (if \<not> s \<and> \<not> i then extra_findings ?c2 t else [])"
    by (simp only: findings_eq M)
  have F1: "findings c t s i = concat (map (key_findings c s i) t)
                @ (if \<not> s \<and> \<not> i then extra_findings c t else [])"
    by (simp only: findings_eq)
  show ?thesis
  proof (cases "\<not> s \<and> \<not> i")
    case True
    have "findings ?c2 t s i = (concat (map (key_findings c s i) t) @ W ks1) @ W ks2"
      using F2 True by (simp add: E2)
    moreover have "findings c t s i
        = (concat (map (key_findings c s i) t) @ W ks1) @ [(WARNING, ExtraKey (PStr k))] @ W ks2"
      using F1 True by (simp add: E1)
    ultimately have "\<exists>xs ys. findings ?c2 t s i = xs @ ys
        \<and> findings c t s i = xs @ [(WARNING, ExtraKey (PStr k))] @ ys" by blast
    with V True show ?thesis by simp
  next
    case False
    have "findings ?c2 t s i = findings c t s i @ []"
      using F1 F2 False by auto
    moreover have "findings c t s i = findings c t s i @ [] @ []" by simp
    ultimately have "\<exists>xs ys. findings ?c2 t s i = xs @ ys
        \<and> findings c t s i = xs @ [] @ ys" by blast
    with V False show ?thesis by auto
  qed
qed


lemma descend_step:
  assumes "descend (a # p) c t = Some (c', t')"
  obtains cd td where "map_of c a = Some (PDict cd)" "map_of t a = Some (PDict td)"
    "descend p cd td = Some (c', t')"
  using assms by (auto split: option.splits pyval.splits)

lemma replace_at_invariant:
  "descend p c t = Some (c', t') \<Longrightarrow> \<not> has_key t' k \<Longrightarrow> unique_keys (PDict t) \<Longrightarrow>
     findings (replace_at p k v c) t s i = findings c t s i
     \<and> verdict (replace_at p k v c) t s i = verdict c t s i"
proof (induction p arbitrary: c t)
  case Nil
  then show ?case by (simp add: replace_here)
next
  case (Cons a p)
  from Cons.prems(1) obtain cd td where
    mc: "map_of c a = Some (PDict cd)" and mt: "map_of t a = Some (PDict td)"
    and d: "descend p cd td = Some (c', t')" by (rule descend_step)
  from Cons.prems(3) have dt: "distinct (map fst t)" by simp
  from Cons.prems(3) mt have utd: "unique_keys (PDict td)" by (rule unique_keys_nested)
  let ?g = "in_dict (replace_at p k v)"
  let ?c2 = "map_value a ?g c"
  from Cons.IH[OF d Cons.prems(2) utd]
  have f: "findings (replace_at p k v cd) td s i = findings cd td s i"
    and vd: "verdict (replace_at p k v cd) td s i = verdict cd td s i" by simp_all
  have mc2: "map_of ?c2 a = Some (PDict (replace_at p k v cd))"
    by (simp add: map_of_map_value mc)
  have other: "\<And>k'. k' \<noteq> a \<Longrightarrow> map_of ?c2 k' = map_of c k'"
    by (simp add: map_of_map_value)
  have f2: "findings (replace_at p k v cd) td s i = findings cd td s i @ []" by (simp add: f)
  have f1: "findings cd td s i = findings cd td s i @ [] @ []" by simp
  from nested_change[OF dt mt mc mc2 other keys_map_value f2 f1 vd]
  show ?case by auto
qed

lemma remove_at_single:
  "descend p c t = Some (c', t') \<Longrightarrow> has_key c' k \<Longrightarrow> \<not> has_key t' k \<Longrightarrow>
   unique_keys (PDict c) \<Longrightarrow> unique_keys (PDict t) \<Longrightarrow>
     verdict (remove_at p k c) t s i = verdict c t s i
     \<and> (\<exists>xs ys. findings (remove_at p k c) t s i = xs @ ys
           \<and> findings c t s i
              = xs @ (if \<not> s \<and> \<not> i then [(WARNING, ExtraKey (PStr k))] else []) @ ys)"
proof (induction p arbitrary: c t)
  case Nil
  from Nil.prems(4) have "distinct (map fst c)" by simp
  from remove_here[OF this, of k t s i] Nil.prems(1,2,3) show ?case by simp
next
  case (Cons a p)
  from Cons.prems(1) obtain cd td where
    mc: "map_of c a = Some (PDict cd)" and mt: "map_of t a = Some (PDict td)"
    and d: "descend p cd td = Some (c', t')" by (rule descend_step)
  from Cons.prems(5) have dt: "distinct (map fst t)" by simp
  from Cons.prems(5) mt have utd: "unique_keys (PDict td)" by (rule unique_keys_nested)
  from Cons.prems(4) mc have ucd: "unique_keys (PDict cd)" by (rule unique_keys_nested)
  let ?g = "in_dict (remove_at p k)"
  let ?c2 = "map_value a ?g c"
  from Cons.IH[OF d Cons.prems(2,3) ucd utd] obtain xs ys where
    vd: "verdict (remove_at p k cd) td s i = verdict cd td s i"
    and f2: "findings (remove_at p k cd) td s i = xs @ ys"
    and f1: "findings cd td s i
              = xs @ (if \<not> s \<and> \<not> i then [(WARNING, ExtraKey (PStr k))] else []) @ ys"
    by blast
  have mc2: "map_of ?c2 a = Some (PDict (remove_at p k cd))"
    by (simp add: map_of_map_value mc)
  have other: "\<And>k'. k' \<noteq> a \<Longrightarrow> map_of ?c2 k' = map_of c k'"
    by (simp add: map_of_map_value)
  from nested_change[OF dt mt mc mc2 other keys_map_value f2 f1 vd]
  show ?case by simp
qed

section \<open>The claims\<close>

text \<open>
  Claim C1. For every configuration map, template map and policy, the call returns, and
  the verdict is true exactly when no record of level ERROR was logged during the whole
  walk. Every record carries the level of its message: a missing key under strict, a
  scalar type mismatch and a nested-object mismatch are errors; a missing key without
  strict and an extra key are warnings, and so never change the verdict.
\<close>

theorem validate_verdict_iff_no_error:
  "validate_config (PDict c) (PDict t) s i lg =
     (Inr (filter is_error (findings c t s i) = []), lg @ findings c t s i)
   \<and> list_all (\<lambda>r. fst r = severity (snd r)) (findings c t s i)"
  by (simp add: validate_dict verdict_errors severity_findings)

text \<open>Scenario A of the specification, as an instance of C1.\<close>

theorem validate_verdict_iff_no_error_witness:
  "validate_config (PDict [(''port'', PStr ''8080'')])
     (PDict [(''port'', PInt 8080), (''host'', PStr ''x'')]) False False []
   = (Inr False, [(ERROR, TypeMismatch ''port'' TInt TStr), (WARNING, MissingKey ''host'')])
   \<and> filter is_error (findings [(''port'', PStr ''8080'')]
         [(''port'', PInt 8080), (''host'', PStr ''x'')] False False)
       = [(ERROR, TypeMismatch ''port'' TInt TStr)]"
  using validate_verdict_iff_no_error
    [of "[(''port'', PStr ''8080'')]" "[(''port'', PInt 8080), (''host'', PStr ''x'')]" False False "[]"]
  by (simp add: findings_def validate_config.simps has_key_def is_error_def)

text \<open>
  Claim C5. With ignore_missing set and strict not set, a call on two dictionaries
  returns and logs no missing-key record, of either level, at any depth of the walk.
\<close>

theorem ignore_missing_suppresses_missing_key:
  "validate_config (PDict c) (PDict t) False True lg
     = (Inr (verdict c t False True), lg @ findings c t False True)
   \<and> filter is_missing_key (findings c t False True) = []"
  by (simp add: validate_dict no_missing_when_ignored)

text \<open>An instance of C5: two template keys are absent, one of them inside a nested map.\<close>

theorem ignore_missing_suppresses_missing_key_witness:
  "validate_config (PDict [(''a'', PDict [])])
     (PDict [(''a'', PDict [(''b'', PInt 1)]), (''host'', PStr ''x'')]) False True []
   = (Inr True, [])"
  using ignore_missing_suppresses_missing_key
    [of "[(''a'', PDict [])]" "[(''a'', PDict [(''b'', PInt 1)]), (''host'', PStr ''x'')]" "[]"]
  by (simp add: findings_def verdict_def validate_config.simps has_key_def)

text \<open>
  Claim C8. For a fixed configuration, template and ignore_missing flag, turning strict on
  never lowers the number of ERROR records and never raises the number of missing-key
  records of level WARNING.
\<close>

theorem strict_severity_monotone:
  "length (filter is_error (findings c t False i)) \<le> length (filter is_error (findings c t True i))
   \<and> length (filter is_missing_warning (findings c t True i))
       \<le> length (filter is_missing_warning (findings c t False i))"
  by (simp add: strict_errors_mono no_missing_warning_when_strict)

text \<open>Scenarios A and B of the specification: strict turns the warning into a second error.\<close>

theorem strict_severity_monotone_witness:
  "length (filter is_error (findings [(''port'', PStr ''8080'')]
       [(''port'', PInt 8080), (''host'', PStr ''x'')] False False)) = 1
   \<and> length (filter is_error (findings [(''port'', PStr ''8080'')]
       [(''port'', PInt 8080), (''host'', PStr ''x'')] True False)) = 2
   \<and> length (filter is_missing_warning (findings [(''port'', PStr ''8080'')]
       [(''port'', PInt 8080), (''host'', PStr ''x'')] True False)) = 0
   \<and> length (filter is_missing_warning (findings [(''port'', PStr ''8080'')]
       [(''port'', PInt 8080), (''host'', PStr ''x'')] False False)) = 1"
  using strict_severity_monotone
    [of "[(''port'', PStr ''8080'')]" "[(''port'', PInt 8080), (''host'', PStr ''x'')]" False]
  by (simp add: findings_def validate_config.simps has_key_def is_error_def is_missing_warning_def)

text \<open>
  Claim C9. With strict set, the whole result of a call on two dictionaries, verdict and
  log, is the same whether ignore_missing is set or not.
\<close>

theorem strict_makes_ignore_missing_irrelevant:
  "validate_config (PDict c) (PDict t) True False lg = validate_config (PDict c) (PDict t) True True lg"
  by (simp add: validate_dict strict_ignores_ignore_missing)

text \<open>An instance of C9, with a missing key and an extra key.\<close>

theorem strict_makes_ignore_missing_irrelevant_witness:
  "validate_config (PDict [(''extra'', PInt 1)]) (PDict [(''host'', PStr ''x'')]) True True []
   = (Inr False, [(ERROR, MissingKeyStrict ''host'')])
   \<and> validate_config (PDict [(''extra'', PInt 1)]) (PDict [(''host'', PStr ''x'')]) True False []
   = (Inr False, [(ERROR, MissingKeyStrict ''host'')])"
  using strict_makes_ignore_missing_irrelevant
    [of "[(''extra'', PInt 1)]" "[(''host'', PStr ''x'')]" "[]"]
  by (simp add: validate_config.simps has_key_def)

text \<open>
  Claim C3. With strict and ignore_missing both set, strict wins: for every key of the
  template that the configuration lacks, at the root or at any nesting level the walk
  reaches (named by a path), the call logs the strict missing-key record at level ERROR
  for that key and returns the verdict false.
\<close>

theorem strict_precedes_ignore_missing:
  assumes "descend p c t = Some (c', t')" and "has_key t' k" and "\<not> has_key c' k"
  shows "validate_config (PDict c) (PDict t) True True lg = (Inr False, lg @ findings c t True True)
         \<and> (ERROR, MissingKeyStrict k) \<in> set (findings c t True True)"
proof -
  from missing_at_level[OF assms(2,3), of True] descend_findings[OF assms(1), of True True]
  have "(ERROR, MissingKeyStrict k) \<in> set (findings c t True True)" "\<not> verdict c t True True"
    by auto
  then show ?thesis by (simp add: validate_dict)
qed

text \<open>An instance of C3: the key \<open>b\<close> is missing one level down.\<close>

theorem strict_precedes_ignore_missing_witness:
  "descend [''a''] [(''a'', PDict [])] [(''a'', PDict [(''b'', PInt 1)])] = Some ([], [(''b'', PInt 1)])
   \<and> has_key [(''b'', PInt 1)] ''b'' \<and> \<not> has_key [] ''b''
   \<and> validate_config (PDict [(''a'', PDict [])]) (PDict [(''a'', PDict [(''b'', PInt 1)])]) True True []
       = (Inr False, [(ERROR, MissingKeyStrict ''b'')])"
proof -
  have d: "descend [''a''] [(''a'', PDict [])] [(''a'', PDict [(''b'', PInt 1)])] = Some ([], [(''b'', PInt 1)])"
    by simp
  have h: "has_key [(''b'', PInt 1)] ''b''" and n: "\<not> has_key [] ''b''"
    by (simp_all add: has_key_def)
  from strict_precedes_ignore_missing[OF d h n, of "[]"] d h n show ?thesis
    by (simp add: findings_def validate_config.simps has_key_def)
qed

text \<open>
  Claim C4. The extra-key pass runs at every level the walk reaches: without strict and
  without ignore_missing, every key of the configuration that the template lacks at that
  level gets a record of level WARNING naming it; with either flag set, no extra-key record
  is logged anywhere.
\<close>

theorem extra_key_pass_every_level:
  "(descend p c t = Some (c', t') \<and> has_key c' k \<and> \<not> has_key t' k \<longrightarrow>
      (WARNING, ExtraKey (PStr k)) \<in> set (findings c t False False))
   \<and> (s \<or> i \<longrightarrow> filter is_extra_key (findings c t s i) = [])"
  using descend_findings[of p c t c' t' False False] extra_at_level[of c' k t']
    no_extra_when_flag[of s i c t]
  by blast

text \<open>Scenario C of the specification, and the same inputs under each flag.\<close>

theorem extra_key_pass_every_level_witness:
  "descend [''a''] [(''a'', PDict [(''b'', PInt 1), (''c'', PInt 2)])] [(''a'', PDict [(''b'', PInt 1)])]
     = Some ([(''b'', PInt 1), (''c'', PInt 2)], [(''b'', PInt 1)])
   \<and> findings [(''a'', PDict [(''b'', PInt 1), (''c'', PInt 2)])] [(''a'', PDict [(''b'', PInt 1)])] False False
     = [(WARNING, ExtraKey (PStr ''c''))]
   \<and> findings [(''a'', PDict [(''b'', PInt 1), (''c'', PInt 2)])] [(''a'', PDict [(''b'', PInt 1)])] True False
     = []
   \<and> findings [(''a'', PDict [(''b'', PInt 1), (''c'', PInt 2)])] [(''a'', PDict [(''b'', PInt 1)])] False True
     = []"
  using extra_key_pass_every_level
    [of "[''a'']" "[(''a'', PDict [(''b'', PInt 1), (''c'', PInt 2)])]" "[(''a'', PDict [(''b'', PInt 1)])]"
        "[(''b'', PInt 1), (''c'', PInt 2)]" "[(''b'', PInt 1)]" "''c''" True False]
  by (simp add: findings_def validate_config.simps has_key_def)

text \<open>
  Claim C6. At a key whose template value is a scalar (anything but a dictionary) and whose
  configuration value has the same class, the iteration logs nothing and leaves the
  verdict as it was, whatever the two values are: only \<open>type_of\<close> of each is looked at.
\<close>

theorem type_only_comparison:
  assumes "map_of c k = Some cv" and "\<not> isinstance_dict tv" and "type_of cv = type_of tv"
  shows "template_loop (PDict c) ((k, tv) # rest) s i (v, lg) =
           template_loop (PDict c) rest s i (v, lg)"
  by (simp only: template_loop_cons key_scalar[OF assms(1,2)]) (simp add: assms(3))

text \<open>An instance of C6: two different integers under the key \<open>port\<close>.\<close>

theorem type_only_comparison_witness:
  "map_of [(''port'', PInt 9090)] ''port'' = Some (PInt 9090)
   \<and> \<not> isinstance_dict (PInt 8080)
   \<and> type_of (PInt 9090) = type_of (PInt 8080)
   \<and> template_loop (PDict [(''port'', PInt 9090)]) [(''port'', PInt 8080)] False False (True, [])
       = (Inr True, [])"
proof -
  have m: "map_of [(''port'', PInt 9090)] ''port'' = Some (PInt 9090)" by simp
  have d: "\<not> isinstance_dict (PInt 8080)" by simp
  have e: "type_of (PInt 9090) = type_of (PInt 8080)" by simp
  from type_only_comparison[OF m d e, of "[]" False False True "[]"] m d e
  show ?thesis by simp
qed

text \<open>
  Claim C7. A dictionary validated against itself, under any policy, returns the verdict
  true and logs nothing, so no record of level ERROR.
\<close>

theorem validate_against_itself:
  assumes "unique_keys (PDict t)"
  shows "validate_config (PDict t) (PDict t) s i lg = (Inr True, lg)
         \<and> filter is_error (findings t t s i) = []"
  using self_validation[OF assms, of s i] by (simp add: validate_dict)

text \<open>An instance of C7, with a nested dictionary.\<close>

theorem validate_against_itself_witness:
  "unique_keys (PDict [(''a'', PDict [(''b'', PInt 1)]), (''port'', PInt 8080)])
   \<and> validate_config (PDict [(''a'', PDict [(''b'', PInt 1)]), (''port'', PInt 8080)])
        (PDict [(''a'', PDict [(''b'', PInt 1)]), (''port'', PInt 8080)]) True False []
       = (Inr True, [])"
proof -
  have u: "unique_keys (PDict [(''a'', PDict [(''b'', PInt 1)]), (''port'', PInt 8080)])" by simp
  from validate_against_itself[OF u, of True False "[]"] u show ?thesis by simp
qed

text \<open>
  Claim C2, as stated, fails for the configuration root: the source has no check of the
  shape of its arguments. On the empty list as the configuration and a template with one
  key, the call compares, logs the missing key as a warning and returns the verdict true.
\<close>

theorem validate_list_root_counterexample:
  "validate_config (PList []) (PDict [(''host'', PStr ''x'')]) False False []
     = (Inr True, [(WARNING, MissingKey ''host'')])"
  by (simp add: validate_config.simps)

text \<open>
  Claim C2, amended. If the template root is not a map, the call fails with a fault that is
  no finding and attempts no comparison, whatever the configuration root is: it raises
  at \<^verbatim>\<open>template_data.items()\<close>, returns no verdict and leaves the log as it was.
\<close>

theorem validate_template_root_fault:
  assumes "\<not> isinstance_dict t"
  shows "validate_config c t s i lg = (Inl AttributeError, lg)"
  using assms by (cases t) (simp_all add: validate_config.simps)

text \<open>An instance of the amended C2: a list as the template root.\<close>

theorem validate_template_root_fault_witness:
  "\<not> isinstance_dict (PList [PStr ''host''])
   \<and> validate_config (PDict [(''host'', PStr ''x'')]) (PList [PStr ''host'']) False False []
       = (Inl AttributeError, [])"
proof -
  have n: "\<not> isinstance_dict (PList [PStr ''host''])" by simp
  from validate_template_root_fault[OF n, of "PDict [(''host'', PStr ''x'')]" False False "[]"] n
  show ?thesis by simp
qed

text \<open>
  Claim C10. The subtree under an extra configuration key is never inspected. For a key
  \<open>k\<close> that the configuration holds and the template lacks at a level the walk reaches:
  storing any other value under \<open>k\<close> changes nothing in the result, verdict or log; and
  next to the run on the configuration without the key, the run logs one more record, the
  extra-key warning for \<open>k\<close> (or no more record at all when strict or ignore_missing is
  set), with the same verdict.
\<close>

theorem extra_subtree_never_inspected:
  assumes "descend p c t = Some (c', t')" and "has_key c' k" and "\<not> has_key t' k"
    and "unique_keys (PDict c)" and "unique_keys (PDict t)"
  shows "validate_config (PDict (replace_at p k v c)) (PDict t) s i lg
           = validate_config (PDict c) (PDict t) s i lg
         \<and> verdict (remove_at p k c) t s i = verdict c t s i
         \<and> (\<exists>xs ys. findings (remove_at p k c) t s i = xs @ ys
               \<and> findings c t s i
                  = xs @ (if \<not> s \<and> \<not> i then [(WARNING, ExtraKey (PStr k))] else []) @ ys)"
  using replace_at_invariant[OF assms(1,3,5), of v s i] remove_at_single[OF assms, of s i]
  by (simp add: validate_dict)

text \<open>An instance of C10: a nested dictionary under the extra key \<open>c\<close>, one level down.\<close>

theorem extra_subtree_never_inspected_witness:
  "descend [''a''] [(''a'', PDict [(''b'', PInt 1), (''c'', PDict [(''deep'', PDict [])])])]
       [(''a'', PDict [(''b'', PInt 1)])]
     = Some ([(''b'', PInt 1), (''c'', PDict [(''deep'', PDict [])])], [(''b'', PInt 1)])
   \<and> validate_config
        (PDict (replace_at [''a''] ''c'' (PInt 0)
           [(''a'', PDict [(''b'', PInt 1), (''c'', PDict [(''deep'', PDict [])])])]))
        (PDict [(''a'', PDict [(''b'', PInt 1)])]) False False []
       = (Inr True, [(WARNING, ExtraKey (PStr ''c''))])
   \<and> validate_config
        (PDict [(''a'', PDict [(''b'', PInt 1), (''c'', PDict [(''deep'', PDict [])])])])
        (PDict [(''a'', PDict [(''b'', PInt 1)])]) False False []
       = (Inr True, [(WARNING, ExtraKey (PStr ''c''))])
   \<and> findings (remove_at [''a''] ''c''
           [(''a'', PDict [(''b'', PInt 1), (''c'', PDict [(''deep'', PDict [])])])])
        [(''a'', PDict [(''b'', PInt 1)])] False False = []"
proof -
  let ?c = "[(''a'', PDict [(''b'', PInt 1), (''c'', PDict [(''deep'', PDict [])])])]"
  let ?t = "[(''a'', PDict [(''b'', PInt 1)])]"
  have d: "descend [''a''] ?c ?t
           = Some ([(''b'', PInt 1), (''c'', PDict [(''deep'', PDict [])])], [(''b'', PInt 1)])"
    by simp
  have h: "has_key [(''b'', PInt 1), (''c'', PDict [(''deep'', PDict [])])] ''c''"
    and n: "\<not> has_key [(''b'', PInt 1)] ''c''"
    by (simp_all add: has_key_def)
  have uc: "unique_keys (PDict ?c)" and ut: "unique_keys (PDict ?t)" by simp_all
  from extra_subtree_never_inspected[OF d h n uc ut, of "PInt 0" False False "[]"] d
  show ?thesis
    by (simp add: findings_def validate_config.simps has_key_def map_value_def)
qed

end
